theory Spec2Isabelle
  imports Main "HOL-Library.Sublist" "HOL-Library.AList"
begin

section \<open>Data model (xml_document.h)\<close>

text \<open>
  \<^verbatim>\<open>struct xml_node { weak_ptr<xml_node> parent; string name; map<string,string> attributes;
  string value; vector<shared_ptr<xml_node>> nodes; }\<close>.
  The tree is owned parent to child, so a node is a datatype over the list of its children.
  The \<^verbatim>\<open>parent\<close> back pointer is only read by the tree builder to leave an element; it is
  the list of open ancestors of the builder state below. The field \<^verbatim>\<open>value\<close> is called
  \<open>text_value\<close> (the source's name is a command of Isabelle). A \<^verbatim>\<open>std::map\<close> is an
  association list with unique keys, written by \<open>AList.update\<close>; the iteration order of
  the map is not observed by the parser.
\<close>

datatype xml_node =
  Node (name: string) (attributes: "(string \<times> string) list") (text_value: string)
       (nodes: "xml_node list")

record xml_document =
  version :: string
  doc_attributes :: "(string \<times> string) list"
  root_node :: "xml_node option"

text \<open>
  Modelled from the spec: the error kinds. The source has one exception class
  \<^verbatim>\<open>xml_error\<close> that carries a message only (\<^verbatim>\<open>xml_error_impl\<close>); the enumeration of kinds
  that the disabled tests of main.cpp read (\<^verbatim>\<open>e.code()\<close>) is not in the source. Each
  \<^verbatim>\<open>throw make_xml_error(...)\<close> is given the kind of section 7 of the specification:
  \<^item> "No XML declaration" is \<open>NoXmlDeclaration\<close>;
  \<^item> "Unsupported XML version" is \<open>UnsupportedVersion\<close>;
  \<^item> "Illegal attributes" is \<open>IllegalAttributes\<close>;
  \<^item> "Found an unescaped character or an undefined entity" is \<open>NoEscapedCharacter\<close>;
  \<^item> "Two dashes in the middle of a comment are not allowed" is \<open>IllegalComment\<close>;
  \<^item> "Missing an end of the comment section", "Missing an end of the CDATA section" and
    "Missing ">" for the tag" are \<open>MissingClosingTag\<close>;
  \<^item> "Found a no name tag" is \<open>NoNameTag\<close>;
  \<^item> "Missing an opening tag for the tag" and "Missing an closing tag for the tag" are
    \<open>MismatchedClosingTag\<close>;
  \<^item> "Closing tag can not have attributes" is \<open>ClosingTagWithAttributes\<close>;
  \<^item> "Closing tag can not end with "/>"" is \<open>ClosingTagSelfClosing\<close>;
  \<^item> "Illegal format" is \<open>IllegalFormatTrailingContent\<close>.
  Two more ways of leaving \<^verbatim>\<open>parse_xml\<close> without a document are in the source:
  \<open>IllegalTagName\<close> is the iterator that \<^verbatim>\<open>validate_tag_name\<close> throws outside every
  \<^verbatim>\<open>try\<close> block, and \<open>AssertionFailure\<close> is the abort of
  \<^verbatim>\<open>assert(current_node != nullptr)\<close>. The position text of a message is not modelled.
\<close>

datatype xml_error =
    NoXmlDeclaration
  | UnsupportedVersion
  | IllegalAttributes
  | NoEscapedCharacter
  | IllegalComment
  | MissingClosingTag
  | NoNameTag
  | IllegalTagName
  | MismatchedClosingTag
  | ClosingTagWithAttributes
  | ClosingTagSelfClosing
  | IllegalFormatTrailingContent
  | AssertionFailure

section \<open>Character classes of the patterns\<close>

text \<open>\<^verbatim>\<open>\s\<close> on \<^verbatim>\<open>char\<close> in the classic locale: space, tab, line feed, vertical tab, form feed,
  carriage return.\<close>

definition is_space_char :: "char \<Rightarrow> bool" where
  "is_space_char c \<longleftrightarrow>
     c = CHR '' '' \<or> c = CHR 0x09 \<or> c = CHR 0x0A \<or> c = CHR 0x0B \<or> c = CHR 0x0C \<or> c = CHR 0x0D"

text \<open>\<^verbatim>\<open>.\<close> of the ECMAScript grammar matches every character but a line terminator.\<close>

definition is_line_terminator :: "char \<Rightarrow> bool" where
  "is_line_terminator c \<longleftrightarrow> c = CHR 0x0A \<or> c = CHR 0x0D"

text \<open>\<^verbatim>\<open>\d\<close> and \<^verbatim>\<open>[0-9a-fA-F]\<close>.\<close>

definition is_digit :: "char \<Rightarrow> bool" where
  "is_digit c \<longleftrightarrow> c \<in> set ''0123456789''"

definition is_hex_digit :: "char \<Rightarrow> bool" where
  "is_hex_digit c \<longleftrightarrow> c \<in> set ''0123456789abcdefABCDEF''"

text \<open>
  \<^verbatim>\<open>is_space(itr, end)\<close>: true on the empty range, otherwise \<^verbatim>\<open>regex_match\<close> with
  \<^verbatim>\<open>^\s*$\<close>.
\<close>

definition is_space :: "string \<Rightarrow> bool" where
  "is_space s \<longleftrightarrow> s = [] \<or> list_all is_space_char s"

section \<open>Entity unescaping\<close>

text \<open>
  \<^verbatim>\<open>std::regex_replace(replaced, std::regex{p}, r)\<close> for a pattern \<open>p\<close> that is a literal,
  non-empty text and a format \<open>r\<close> without \<^verbatim>\<open>$\<close>: every occurrence of \<open>p\<close>, found from left
  to right without overlap, is replaced by \<open>r\<close>; the text between the occurrences is copied.
\<close>

fun replace_all :: "string \<Rightarrow> string \<Rightarrow> string \<Rightarrow> string" where
  "replace_all p r [] = []"
| "replace_all p r (c # cs) =
     (if prefix p (c # cs) then r @ replace_all p r (drop (length p - 1) cs)
      else c # replace_all p r cs)"

text \<open>
  The text after an \<^verbatim>\<open>&\<close> that the negative lookahead
  \<^verbatim>\<open>(?!lt;|gt;|apos;|quot;|amp;|#\d+;|#x[0-9a-fA-F]{4};)\<close> accepts as an entity.
\<close>

definition numeric_dec :: "string \<Rightarrow> bool" where
  "numeric_dec r =
     (case r of
        [] \<Rightarrow> False
      | c # ds \<Rightarrow> c = CHR ''#'' \<and> takeWhile is_digit ds \<noteq> [] \<and>
          (case dropWhile is_digit ds of [] \<Rightarrow> False | d # _ \<Rightarrow> d = CHR '';''))"

definition numeric_hex :: "string \<Rightarrow> bool" where
  "numeric_hex r =
     (case r of
        c # x # h1 # h2 # h3 # h4 # e # _ \<Rightarrow>
          c = CHR ''#'' \<and> x = CHR ''x'' \<and> is_hex_digit h1 \<and> is_hex_digit h2 \<and>
          is_hex_digit h3 \<and> is_hex_digit h4 \<and> e = CHR '';''
      | _ \<Rightarrow> False)"

definition entity_follows :: "string \<Rightarrow> bool" where
  "entity_follows r \<longleftrightarrow>
     prefix ''lt;'' r \<or> prefix ''gt;'' r \<or> prefix ''apos;'' r \<or> prefix ''quot;'' r \<or>
     prefix ''amp;'' r \<or> numeric_dec r \<or> numeric_hex r"

text \<open>Validates (2): \<^verbatim>\<open>regex_search\<close> finds an \<^verbatim>\<open>&\<close> that no entity follows.\<close>

fun has_bad_amp :: "string \<Rightarrow> bool" where
  "has_bad_amp [] = False"
| "has_bad_amp (c # cs) = ((c = CHR ''&'' \<and> \<not> entity_follows cs) \<or> has_bad_amp cs)"

text \<open>The five replacements of \<^verbatim>\<open>_unescape_xml_entity\<close>, in the order of the source.\<close>

definition replace_entities :: "string \<Rightarrow> string" where
  "replace_entities s =
     replace_all ''&amp;'' ''&''
       (replace_all ''&quot;'' [CHR 0x22]
         (replace_all ''&apos;'' [CHR 0x27]
           (replace_all ''&gt;'' ''>''
             (replace_all ''&lt;'' ''<'' s))))"

text \<open>
  \<^verbatim>\<open>_unescape_xml_entity(itr, end, illegal_re)\<close>. The pattern \<open>illegal_re\<close> is a character
  class in each of the three callers, given here as the list of its characters. \<open>None\<close> is
  the thrown iterator.
\<close>

definition unescape_xml_entity :: "string \<Rightarrow> string \<Rightarrow> string option" where
  "unescape_xml_entity illegal s =
     (if \<exists>c \<in> set s. c \<in> set illegal then None
      else if has_bad_amp s then None
      else Some (replace_entities s))"

definition unescape_xml_inner_text :: "string \<Rightarrow> string option" where
  "unescape_xml_inner_text = unescape_xml_entity ''<''"

definition unescape_xml_attribute_value :: "string \<Rightarrow> string option" where
  "unescape_xml_attribute_value = unescape_xml_entity [CHR ''<'', CHR 0x27, CHR 0x22]"

definition unescape_xml_attribute_value_with_apos :: "string \<Rightarrow> string option" where
  "unescape_xml_attribute_value_with_apos = unescape_xml_entity [CHR ''<'', CHR 0x27]"

section \<open>Attribute list parser\<close>

text \<open>
  One attempt of the pattern \<^verbatim>\<open>\s+([^=]+)=([\"'])([\s\S]*?)\2\<close> at the head of \<open>s\<close>; the result
  is the key, the quote character, the raw value and the length of the whole match.

  The greedy \<^verbatim>\<open>\s+\<close> takes the whole run \<open>ws\<close> of white space and the greedy \<^verbatim>\<open>[^=]+\<close> the
  text \<open>key0\<close> up to the first \<^verbatim>\<open>=\<close>. White space is in \<^verbatim>\<open>[^=]\<close>, so when the run is followed by
  \<^verbatim>\<open>=\<close> at once the backtracking hands the last character of the run to the key, and a run
  of one character fails. Every other way of backtracking ends before the same \<^verbatim>\<open>=\<close>, which
  must be followed by a quote. The lazy \<^verbatim>\<open>[\s\S]*?\<close> ends at the first later occurrence of
  the same quote (\<^verbatim>\<open>\2\<close>).
\<close>

definition attr_match_here :: "string \<Rightarrow> (string \<times> char \<times> string \<times> nat) option" where
  "attr_match_here s =
     (let ws = takeWhile is_space_char s;
          key0 = takeWhile (\<lambda>c. c \<noteq> CHR ''='') (dropWhile is_space_char s);
          r = dropWhile (\<lambda>c. c \<noteq> CHR ''='') (dropWhile is_space_char s)
      in if ws = [] \<or> (key0 = [] \<and> length ws < 2) then None
         else (case r of
                 e # q # vs \<Rightarrow>
                   if (q = CHR 0x22 \<or> q = CHR 0x27) \<and> q \<in> set vs
                   then Some (if key0 = [] then [last ws] else key0, q,
                              takeWhile (\<lambda>c. c \<noteq> q) vs,
                              length ws + length key0 + 3 + length (takeWhile (\<lambda>c. c \<noteq> q) vs))
                   else None
               | _ \<Rightarrow> None))"

text \<open>\<^verbatim>\<open>std::regex_search(itr, end, m, re)\<close>: the pattern is not anchored, the first start
  position with a match wins. Only the match is returned: the source advances by
  \<^verbatim>\<open>m[0].length()\<close> and never reads the position of the match.\<close>

fun attr_search :: "string \<Rightarrow> (string \<times> char \<times> string \<times> nat) option" where
  "attr_search [] = None"
| "attr_search (c # cs) =
     (case attr_match_here (c # cs) of Some m \<Rightarrow> Some m | None \<Rightarrow> attr_search cs)"

text \<open>
  One iteration of the \<^verbatim>\<open>while\<close> of \<^verbatim>\<open>parse_xml_attributes\<close> on the map built so far and the
  range \<^verbatim>\<open>[itr, end)\<close>. \<open>None\<close> is a thrown iterator, \<open>Some (Inl attrs)\<close> the return after the
  loop, \<open>Some (Inr (attrs, s))\<close> the state of the next iteration.
\<close>

definition attr_step ::
  "(string \<times> string) list \<Rightarrow> string \<Rightarrow>
   ((string \<times> string) list + (string \<times> string) list \<times> string) option" where
  "attr_step attrs s =
     (case attr_search s of
        Some (k, q, v, len) \<Rightarrow>
          (case (if q = CHR 0x22 then unescape_xml_attribute_value v
                 else unescape_xml_attribute_value_with_apos v) of
             None \<Rightarrow> None
           | Some v' \<Rightarrow> Some (Inr (AList.update k v' attrs, drop len s)))
      | None \<Rightarrow>
          if s \<noteq> [] \<and> \<not> list_all is_space_char s then None else Some (Inl attrs))"

section \<open>Lexical matchers of the tree builder\<close>

text \<open>
  The patterns of \<^verbatim>\<open>parse_xml\<close> start with \<^verbatim>\<open>^\<close> and are searched by \<^verbatim>\<open>bb::regex_search\<close> in the
  range \<^verbatim>\<open>[cursor.current, cursor.end)\<close>. In the ECMAScript grammar without the multiline option
  \<^verbatim>\<open>^\<close> matches at the start of that range only, so each matcher below works at the head of
  the text that is left to scan, and returns the text behind the match: the cursor advanced
  by \<^verbatim>\<open>m[0].length()\<close>. \<open>None\<close> is a search without a match, which leaves the cursor where it is.
\<close>

text \<open>The first occurrence of a literal text: the text before it and the text after it. This
  is a lazy \<^verbatim>\<open>[\s\S]*?\<close> followed by the literal.\<close>

fun find_sub :: "string \<Rightarrow> string \<Rightarrow> (string \<times> string) option" where
  "find_sub p [] = (if p = [] then Some ([], []) else None)"
| "find_sub p (c # cs) =
     (if prefix p (c # cs) then Some ([], drop (length p) (c # cs))
      else map_option (\<lambda>(a, b). (c # a, b)) (find_sub p cs))"

text \<open>The rest of a version after its first character: \<^verbatim>\<open>.\<close> repeated lazily up to the next
  double quote, with no line terminator on the way.\<close>

fun version_tail :: "string \<Rightarrow> (string \<times> string) option" where
  "version_tail [] = None"
| "version_tail (c # cs) =
     (if c = CHR 0x22 then Some ([], cs)
      else if is_line_terminator c then None
      else map_option (\<lambda>(v, r). (c # v, r)) (version_tail cs))"

text \<open>
  \<^verbatim>\<open>^<\?xml\s+version=\"(.+?)\"([\s\S]*?)\?>\<close> at the start of the text: the version, the
  attribute text and the text after the match. The lazy \<^verbatim>\<open>.+?\<close> tries the shortest version
  first. When no \<^verbatim>\<open>?>\<close> follows its closing quote none follows a later quote either, so the
  first candidate decides.
\<close>

definition match_declaration :: "string \<Rightarrow> (string \<times> string \<times> string) option" where
  "match_declaration s =
     (if \<not> prefix ''<?xml'' s then None
      else if takeWhile is_space_char (drop (length ''<?xml'') s) = [] then None
      else if \<not> prefix (''version='' @ [CHR 0x22])
                 (dropWhile is_space_char (drop (length ''<?xml'') s)) then None
      else (case drop (length (''version='' @ [CHR 0x22]))
                   (dropWhile is_space_char (drop (length ''<?xml'') s)) of
              [] \<Rightarrow> None
            | c # cs \<Rightarrow>
                if is_line_terminator c then None
                else (case version_tail cs of
                        None \<Rightarrow> None
                      | Some (v, r) \<Rightarrow>
                          (case find_sub ''?>'' r of
                             None \<Rightarrow> None
                           | Some (blob, r') \<Rightarrow> Some (c # v, blob, r')))))"

text \<open>
  \<^verbatim>\<open>^([^<]*?)<((!--|!\[CDATA\[|[^>\s]*))\<close> at the cursor: the text before the first \<^verbatim>\<open><\<close>, the
  tag name and the text after the match. The alternatives are tried in the order written;
  the last one is greedy and takes every character that is neither \<^verbatim>\<open>>\<close> nor white space.
\<close>

definition match_tag_head :: "string \<Rightarrow> (string \<times> string \<times> string) option" where
  "match_tag_head s =
     (case dropWhile (\<lambda>c. c \<noteq> CHR ''<'') s of
        [] \<Rightarrow> None
      | _ # r \<Rightarrow>
          Some (takeWhile (\<lambda>c. c \<noteq> CHR ''<'') s,
            if prefix ''!--'' r then (''!--'', drop (length ''!--'') r)
            else if prefix ''![CDATA['' r then (''![CDATA['', drop (length ''![CDATA['') r)
            else (takeWhile (\<lambda>c. c \<noteq> CHR ''>'' \<and> \<not> is_space_char c) r,
                  dropWhile (\<lambda>c. c \<noteq> CHR ''>'' \<and> \<not> is_space_char c) r)))"

text \<open>
  \<^verbatim>\<open>^[^-]*(--[\s\S]?)\<close> at the cursor: group 1 and the text after the match. The greedy
  \<^verbatim>\<open>[^-]*\<close> stops at the first dash; giving characters back cannot help, none of them is a
  dash.
\<close>

definition match_comment_end :: "string \<Rightarrow> (string \<times> string) option" where
  "match_comment_end s =
     (case dropWhile (\<lambda>c. c \<noteq> CHR ''-'') s of
        d1 # d2 # r \<Rightarrow>
          if d2 = CHR ''-'' then Some (''--'' @ take 1 r, drop 1 r) else None
      | _ \<Rightarrow> None)"

text \<open>\<^verbatim>\<open>^([\s\S]*?\]\]>)\<close> at the cursor: the text before the end marker (what the source appends
  to the pending text, \<^verbatim>\<open>m[1].second - 3\<close>) and the text after the match.\<close>

definition match_cdata_end :: "string \<Rightarrow> (string \<times> string) option" where
  "match_cdata_end s = find_sub '']]>'' s"

text \<open>
  \<^verbatim>\<open>^([\s\S]*?)(/?)>\<close> at the cursor: group 1, whether group 2 is \<^verbatim>\<open>/\<close>, and the text after the
  match. Group 1 is lazy: at each length, from the shortest, the greedy \<^verbatim>\<open>/?\<close> is tried
  with the slash and then without it.
\<close>

fun match_tag_end :: "string \<Rightarrow> (string \<times> bool \<times> string) option" where
  "match_tag_end [] = None"
| "match_tag_end (c # cs) =
     (if c = CHR ''/'' \<and> prefix ''>'' cs then Some ([], True, drop 1 cs)
      else if c = CHR ''>'' then Some ([], False, cs)
      else map_option (\<lambda>(a, b, r). (c # a, b, r)) (match_tag_end cs))"

text \<open>\<^verbatim>\<open>^([^<]*?)(<!--)\<close> at the cursor, the pattern of the loop after the tag loop: the text
  after the match.\<close>

definition match_comment_start :: "string \<Rightarrow> string option" where
  "match_comment_start s =
     (if prefix ''<!--'' (dropWhile (\<lambda>c. c \<noteq> CHR ''<'') s)
      then Some (drop (length ''<!--'') (dropWhile (\<lambda>c. c \<noteq> CHR ''<'') s)) else None)"

text \<open>\<^verbatim>\<open>validate_tag_name\<close>: an iterator is thrown when the name has one of
  \<^verbatim>\<open><>'"&\<close>.\<close>

definition validate_tag_name :: "string \<Rightarrow> bool" where
  "validate_tag_name n \<longleftrightarrow> (\<forall>c \<in> set n. c \<notin> set [CHR ''<'', CHR ''>'', CHR 0x27, CHR 0x22, CHR ''&''])"

section \<open>The loop of the attribute parser\<close>

lemma attr_match_here_length:
  "attr_match_here s = Some (k, q, v, len) \<Longrightarrow> 0 < len \<and> len \<le> length s"
proof -
  assume m: "attr_match_here s = Some (k, q, v, len)"
  let ?ws = "takeWhile is_space_char s"
  let ?r1 = "dropWhile is_space_char s"
  let ?key0 = "takeWhile (\<lambda>c. c \<noteq> CHR ''='') ?r1"
  let ?r = "dropWhile (\<lambda>c. c \<noteq> CHR ''='') ?r1"
  from m obtain e vs where r: "?r = e # q # vs" and qin: "q \<in> set vs"
    and len: "len = length ?ws + length ?key0 + 3 + length (takeWhile (\<lambda>c. c \<noteq> q) vs)"
    by (auto simp: attr_match_here_def Let_def split: if_splits list.splits)
  have "length s = length ?ws + length ?r1"
    by (metis length_append takeWhile_dropWhile_id)
  moreover have "length ?r1 = length ?key0 + length ?r"
    by (metis length_append takeWhile_dropWhile_id)
  moreover have "length (takeWhile (\<lambda>c. c \<noteq> q) vs) < length vs"
    using qin by (induction vs) auto
  ultimately show ?thesis using r len by simp
qed

lemma attr_search_length:
  "attr_search s = Some (k, q, v, len) \<Longrightarrow> 0 < len \<and> len \<le> length s"
proof (induction s)
  case Nil
  then show ?case by simp
next
  case (Cons c cs)
  show ?case
  proof (cases "attr_match_here (c # cs)")
    case None
    with Cons show ?thesis by auto
  next
    case (Some m)
    with Cons.prems have "attr_match_here (c # cs) = Some (k, q, v, len)" by simp
    then show ?thesis by (rule attr_match_here_length)
  qed
qed

lemma attr_step_shorter:
  "attr_step attrs s = Some (Inr (attrs', s')) \<Longrightarrow> length s' < length s"
  by (auto simp: attr_step_def split: option.splits if_splits dest!: attr_search_length)

text \<open>\<^verbatim>\<open>parse_xml_attributes(itr, end)\<close>: the loop from the empty map.\<close>

function attributes_loop :: "(string \<times> string) list \<Rightarrow> string \<Rightarrow> (string \<times> string) list option" where
  "attributes_loop attrs s =
     (case attr_step attrs s of
        None \<Rightarrow> None
      | Some (Inl result) \<Rightarrow> Some result
      | Some (Inr (attrs', s')) \<Rightarrow> attributes_loop attrs' s')"
  by pat_completeness auto
termination
  by (relation "measure (\<lambda>(attrs, s). length s)") (auto dest: attr_step_shorter)

declare attributes_loop.simps [simp del]

definition parse_xml_attributes :: "string \<Rightarrow> (string \<times> string) list option" where
  "parse_xml_attributes s = attributes_loop [] s"

section \<open>Tree builder\<close>

text \<open>
  The state of the loops of \<^verbatim>\<open>parse_xml\<close>: \<open>rest\<close> is the range \<^verbatim>\<open>[cursor.current, cursor.end)\<close>,
  \<open>pending\<close> is \<^verbatim>\<open>inner_text_before_tag\<close>, \<open>current_node\<close> is the node that \<^verbatim>\<open>current_node\<close>
  points to and \<open>ancestors\<close> is the chain of its \<^verbatim>\<open>parent\<close> pointers, nearest first, ending
  with \<^verbatim>\<open>top_node\<close> (an empty chain: the current node is \<^verbatim>\<open>top_node\<close> and its parent pointer
  is null). In the source an open element is the last entry of its parent's \<^verbatim>\<open>nodes\<close> from
  the moment it is opened, and nothing is appended to the parent while the element is
  open; here the open element is kept beside its parent and \<open>attach\<close> puts it at that
  place.
\<close>

record builder =
  rest :: string
  pending :: string
  current_node :: xml_node
  ancestors :: "xml_node list"

text \<open>\<^verbatim>\<open>p->nodes.push_back(n)\<close>.\<close>

definition push_back :: "xml_node \<Rightarrow> xml_node \<Rightarrow> xml_node" where
  "push_back n p = Node (name p) (attributes p) (text_value p) (nodes p @ [n])"

text \<open>The collapse of lines 202 to 205: one child, named \<^verbatim>\<open>#text\<close>.\<close>

definition collapse :: "xml_node \<Rightarrow> xml_node" where
  "collapse n =
     (if length (nodes n) = 1 \<and> name (hd (nodes n)) = ''#text''
      then Node (name n) (attributes n) (text_value (hd (nodes n))) []
      else n)"

fun attach :: "xml_node \<Rightarrow> xml_node list \<Rightarrow> xml_node" where
  "attach n [] = n"
| "attach n (p # ps) = attach (push_back n p) ps"

text \<open>The tree under \<^verbatim>\<open>top_node\<close>.\<close>

definition top_node :: "builder \<Rightarrow> xml_node" where
  "top_node st = attach (current_node st) (ancestors st)"

text \<open>
  The branch of an ordinary tag (lines 153 to 225), on the state whose pending text already
  has the text before the tag, the tag name and the text after the tag head. Both branches
  of \<^verbatim>\<open>if (current_node->name.empty())\<close> make the same comparison and differ in the message.
  The pending text is empty behind the tag, moved into the text node or cleared, as the
  assertion of line 225 says.
\<close>

definition ordinary_tag :: "builder \<Rightarrow> string \<Rightarrow> string \<Rightarrow> xml_error + builder" where
  "ordinary_tag st tag_name r =
     (if tag_name = [] then Inl NoNameTag
      else if \<not> validate_tag_name tag_name then Inl IllegalTagName
      else (case match_tag_end r of
              None \<Rightarrow> Inl MissingClosingTag
            | Some (blob, independent_mark, r') \<Rightarrow>
                (case parse_xml_attributes blob of
                   None \<Rightarrow> Inl IllegalAttributes
                 | Some attrs \<Rightarrow>
                     (let cur = (if \<not> is_space (pending st)
                                 then push_back (Node ''#text'' [] (pending st) []) (current_node st)
                                 else current_node st)
                      in if prefix ''/'' tag_name then
                           (if independent_mark then Inl ClosingTagSelfClosing
                            else if tag_name \<noteq> ''/'' @ name cur then Inl MismatchedClosingTag
                            else if attrs \<noteq> [] then Inl ClosingTagWithAttributes
                            else (case ancestors st of
                                    [] \<Rightarrow> Inl AssertionFailure
                                  | p # ps \<Rightarrow>
                                      Inr \<lparr>rest = r', pending = [],
                                           current_node = push_back (collapse cur) p,
                                           ancestors = ps\<rparr>))
                         else if independent_mark then
                           Inr \<lparr>rest = r', pending = [],
                                current_node = push_back (Node tag_name attrs [] []) cur,
                                ancestors = ancestors st\<rparr>
                         else
                           Inr \<lparr>rest = r', pending = [],
                                current_node = Node tag_name attrs [] [],
                                ancestors = cur # ancestors st\<rparr>))))"

text \<open>
  One iteration of \<^verbatim>\<open>while (cursor.current < cursor.end)\<close> (lines 108 to 226). \<open>Inl\<close> is a
  throw, \<open>Inr None\<close> the \<^verbatim>\<open>break\<close>, \<open>Inr (Some st')\<close> the state of the next iteration.
\<close>

definition tag_step :: "builder \<Rightarrow> xml_error + builder option" where
  "tag_step st =
     (case match_tag_head (rest st) of
        None \<Rightarrow> Inr None
      | Some (txt, tag_name, r) \<Rightarrow>
          (case unescape_xml_inner_text txt of
             None \<Rightarrow> Inl NoEscapedCharacter
           | Some t \<Rightarrow>
               if tag_name = ''!--'' then
                 (case match_comment_end r of
                    None \<Rightarrow> Inl MissingClosingTag
                  | Some (m1, r') \<Rightarrow>
                      if m1 \<noteq> ''-->'' then Inl IllegalComment
                      else Inr (Some (st\<lparr>rest := r', pending := pending st @ t\<rparr>)))
               else if tag_name = ''![CDATA['' then
                 (case match_cdata_end r of
                    None \<Rightarrow> Inl MissingClosingTag
                  | Some (content, r') \<Rightarrow>
                      Inr (Some (st\<lparr>rest := r', pending := pending st @ t @ content\<rparr>)))
               else map_sum id Some (ordinary_tag (st\<lparr>pending := pending st @ t\<rparr>) tag_name r)))"

text \<open>One iteration of the loop that skips comments after the tag loop (lines 233 to 244).\<close>

definition comment_step :: "string \<Rightarrow> xml_error + string option" where
  "comment_step s =
     (case match_comment_start s of
        None \<Rightarrow> Inr None
      | Some r \<Rightarrow>
          (case match_comment_end r of
             None \<Rightarrow> Inl MissingClosingTag
           | Some (m1, r') \<Rightarrow> if m1 \<noteq> ''-->'' then Inl IllegalComment else Inr (Some r')))"

section \<open>What a successful match consumes\<close>

lemma dropWhile_neq_Cons:
  "dropWhile (\<lambda>c. c \<noteq> a) s = x # r \<Longrightarrow> x = a \<and> takeWhile (\<lambda>c. c \<noteq> a) s @ a # r = s"
  by (induction s) (auto split: if_splits)

lemma prefix_drop_length: "prefix p s \<Longrightarrow> p @ drop (length p) s = s"
  by (auto simp: prefix_def)

lemma match_tag_head_split:
  "match_tag_head s = Some (t, n, r) \<Longrightarrow> t @ CHR ''<'' # n @ r = s"
proof -
  assume m: "match_tag_head s = Some (t, n, r)"
  let ?d = "dropWhile (\<lambda>c. c \<noteq> CHR ''<'') s"
  from m obtain x r0 where d: "?d = x # r0" and tx: "t = takeWhile (\<lambda>c. c \<noteq> CHR ''<'') s"
    and nr: "(n, r) = (if prefix ''!--'' r0 then (''!--'', drop (length ''!--'') r0)
            else if prefix ''![CDATA['' r0 then (''![CDATA['', drop (length ''![CDATA['') r0)
            else (takeWhile (\<lambda>c. c \<noteq> CHR ''>'' \<and> \<not> is_space_char c) r0,
                  dropWhile (\<lambda>c. c \<noteq> CHR ''>'' \<and> \<not> is_space_char c) r0))"
    by (auto simp: match_tag_head_def split: list.splits)
  have "n @ r = r0"
  proof (cases "prefix ''!--'' r0")
    case True
    then show ?thesis using nr prefix_drop_length[of "''!--''" r0] by simp
  next
    case False
    show ?thesis
    proof (cases "prefix ''![CDATA['' r0")
      case True
      then show ?thesis using nr False prefix_drop_length[of "''![CDATA[''" r0] by simp
    next
      case F2: False
      with nr False show ?thesis by simp
    qed
  qed
  then show ?thesis using dropWhile_neq_Cons[OF d] tx by simp
qed

lemma match_comment_end_split:
  "match_comment_end s = Some (m, r) \<Longrightarrow> \<exists>a. a @ m @ r = s"
proof -
  assume m: "match_comment_end s = Some (m, r)"
  let ?d = "dropWhile (\<lambda>c. c \<noteq> CHR ''-'') s"
  from m obtain d1 r0 where d: "?d = d1 # CHR ''-'' # r0" and mm: "m = ''--'' @ take 1 r0" and r: "r = drop 1 r0"
    by (auto simp: match_comment_end_def split: list.splits if_splits)
  have "takeWhile (\<lambda>c. c \<noteq> CHR ''-'') s @ m @ r = s"
    using dropWhile_neq_Cons[OF d] mm r by simp
  then show ?thesis by blast
qed

lemma match_comment_start_split:
  "match_comment_start s = Some r \<Longrightarrow> \<exists>a. a @ ''<!--'' @ r = s"
proof -
  assume m: "match_comment_start s = Some r"
  let ?d = "dropWhile (\<lambda>c. c \<noteq> CHR ''<'') s"
  from m have p: "prefix ''<!--'' ?d" and r: "r = drop (length ''<!--'') ?d"
    by (auto simp: match_comment_start_def split: if_splits)
  have "''<!--'' @ r = ?d" using prefix_drop_length[OF p] r by simp
  then have "takeWhile (\<lambda>c. c \<noteq> CHR ''<'') s @ ''<!--'' @ r = s" by simp
  then show ?thesis by blast
qed

lemma find_sub_split: "find_sub p s = Some (a, b) \<Longrightarrow> a @ p @ b = s"
proof (induction s arbitrary: a)
  case Nil
  then show ?case by (simp split: if_splits)
next
  case (Cons c cs)
  show ?case
  proof (cases "prefix p (c # cs)")
    case True
    with Cons.prems have "a = []" "b = drop (length p) (c # cs)" by auto
    then show ?thesis using prefix_drop_length[OF True] by simp
  next
    case False
    with Cons.prems obtain a' where "find_sub p cs = Some (a', b)" "a = c # a'" by auto
    with Cons.IH show ?thesis by simp
  qed
qed

lemma match_tag_end_split:
  "match_tag_end s = Some (a, b, r) \<Longrightarrow> a @ (if b then ''/>'' else ''>'') @ r = s"
proof (induction s arbitrary: a)
  case Nil
  then show ?case by simp
next
  case (Cons c cs)
  then show ?case
    by (cases cs) (auto split: if_splits)
qed

lemma match_tag_head_shorter: "match_tag_head s = Some (t, n, r) \<Longrightarrow> length r < length s"
  by (drule match_tag_head_split) auto

lemma match_comment_end_shorter: "match_comment_end s = Some (m, r) \<Longrightarrow> length r \<le> length s"
  by (drule match_comment_end_split) auto

lemma find_sub_shorter: "find_sub p s = Some (a, b) \<Longrightarrow> length b \<le> length s"
  by (drule find_sub_split) auto

lemma match_tag_end_shorter: "match_tag_end s = Some (a, b, r) \<Longrightarrow> length r < length s"
  by (drule match_tag_end_split) (auto split: if_splits)

lemma match_comment_start_shorter: "match_comment_start s = Some r \<Longrightarrow> length r < length s"
  by (drule match_comment_start_split) auto

lemma ordinary_tag_rest:
  "ordinary_tag st n r = Inr st' \<Longrightarrow> \<exists>blob im. match_tag_end r = Some (blob, im, rest st')"
  by (auto simp: ordinary_tag_def Let_def split: if_splits option.splits list.splits)

lemma ordinary_tag_shorter:
  "ordinary_tag st n r = Inr st' \<Longrightarrow> length (rest st') < length r"
  using ordinary_tag_rest match_tag_end_shorter by blast

lemma tag_step_shorter:
  assumes "tag_step st = Inr (Some st')"
  shows "length (rest st') < length (rest st)"
proof -
  from assms obtain t n r where h: "match_tag_head (rest st) = Some (t, n, r)"
    by (auto simp: tag_step_def split: option.splits)
  then have "length r < length (rest st)" by (rule match_tag_head_shorter)
  moreover have "length (rest st') \<le> length r"
  proof (cases "n = ''!--''")
    case True
    with assms h obtain m where "match_comment_end r = Some (m, rest st')"
      by (auto simp: tag_step_def split: option.splits if_splits)
    then show ?thesis by (rule match_comment_end_shorter)
  next
    case False
    show ?thesis
    proof (cases "n = ''![CDATA[''")
      case True
      with assms h False obtain c where "find_sub '']]>'' r = Some (c, rest st')"
        by (auto simp: tag_step_def match_cdata_end_def split: option.splits if_splits)
      then show ?thesis by (rule find_sub_shorter)
    next
      case F2: False
      from assms h False F2 obtain u where
        "ordinary_tag (st\<lparr>pending := pending st @ u\<rparr>) n r = Inr st'"
        by (cases "unescape_xml_inner_text t";
            cases "ordinary_tag (st\<lparr>pending := pending st @ the (unescape_xml_inner_text t)\<rparr>) n r")
           (auto simp: tag_step_def)
      then show ?thesis using ordinary_tag_shorter by fastforce
    qed
  qed
  ultimately show ?thesis by simp
qed

lemma comment_step_shorter:
  assumes "comment_step s = Inr (Some r)"
  shows "length r < length s"
proof -
  from assms obtain r0 m where "match_comment_start s = Some r0" "match_comment_end r0 = Some (m, r)"
    by (auto simp: comment_step_def split: option.splits if_splits)
  then show ?thesis
    using match_comment_start_shorter match_comment_end_shorter by fastforce
qed

section \<open>The loops and parse_xml\<close>

text \<open>\<^verbatim>\<open>while (cursor.current < cursor.end)\<close> of line 107.\<close>

function tag_loop :: "builder \<Rightarrow> xml_error + builder" where
  "tag_loop st =
     (if rest st = [] then Inr st
      else (case tag_step st of
              Inl e \<Rightarrow> Inl e
            | Inr None \<Rightarrow> Inr st
            | Inr (Some st') \<Rightarrow> tag_loop st'))"
  by pat_completeness auto
termination
  by (relation "measure (\<lambda>st. length (rest st))") (auto dest: tag_step_shorter)

declare tag_loop.simps [simp del]

text \<open>\<^verbatim>\<open>while (bb::regex_search(cursor, m, re))\<close> of line 233.\<close>

function comment_loop :: "string \<Rightarrow> xml_error + string" where
  "comment_loop s =
     (case comment_step s of
        Inl e \<Rightarrow> Inl e
      | Inr None \<Rightarrow> Inr s
      | Inr (Some r) \<Rightarrow> comment_loop r)"
  by pat_completeness auto
termination
  by (relation "measure length") (auto dest: comment_step_shorter)

declare comment_loop.simps [simp del]

text \<open>
  The block of lines 103 to 250 on the text after the declaration: the tag loop from
  \<^verbatim>\<open>top_node\<close> (a node with the empty name), the comment loop and the check of the remaining
  text. The pending text and the elements that are still open are not examined.
\<close>

definition build_tree :: "string \<Rightarrow> xml_error + builder" where
  "build_tree r =
     (case tag_loop \<lparr>rest = r, pending = [], current_node = Node [] [] [] [], ancestors = []\<rparr> of
        Inl e \<Rightarrow> Inl e
      | Inr st \<Rightarrow>
          (case comment_loop (rest st) of
             Inl e \<Rightarrow> Inl e
           | Inr r' \<Rightarrow> if \<not> is_space r' then Inl IllegalFormatTrailingContent else Inr st))"

text \<open>Lines 252 to 256: the first child of \<^verbatim>\<open>top_node\<close>, if there is one.\<close>

definition first_child :: "xml_node \<Rightarrow> xml_node option" where
  "first_child t = (case nodes t of [] \<Rightarrow> None | n # _ \<Rightarrow> Some n)"

definition parse_xml :: "string \<Rightarrow> xml_error + xml_document" where
  "parse_xml text =
     (case match_declaration text of
        None \<Rightarrow> Inl NoXmlDeclaration
      | Some (ver, blob, r) \<Rightarrow>
          if ver \<noteq> ''1.0'' then Inl UnsupportedVersion
          else (case parse_xml_attributes blob of
                  None \<Rightarrow> Inl IllegalAttributes
                | Some attrs \<Rightarrow>
                    (case build_tree r of
                       Inl e \<Rightarrow> Inl e
                     | Inr st \<Rightarrow>
                         Inr \<lparr>version = ver, doc_attributes = attrs,
                              root_node = first_child (top_node st)\<rparr>)))"

text \<open>\<^verbatim>\<open>xml_node::inner_text\<close>: the value, then the inner text of every child in order.\<close>

fun inner_text :: "xml_node \<Rightarrow> string" where
  "inner_text (Node n a v cs) = v @ concat (map inner_text cs)"

section \<open>Properties of texts and trees\<close>

text \<open>
  What one pass from left to right produces that rewrites the five named entities and
  copies every other character, so every numeric reference, as it is.
\<close>

fun decode_named_entities :: "string \<Rightarrow> string" where
  "decode_named_entities [] = []"
| "decode_named_entities (c # cs) =
     (if prefix ''&lt;'' (c # cs) then CHR ''<'' # decode_named_entities (drop (length ''lt;'') cs)
      else if prefix ''&gt;'' (c # cs) then CHR ''>'' # decode_named_entities (drop (length ''gt;'') cs)
      else if prefix ''&apos;'' (c # cs) then CHR 0x27 # decode_named_entities (drop (length ''apos;'') cs)
      else if prefix ''&quot;'' (c # cs) then CHR 0x22 # decode_named_entities (drop (length ''quot;'') cs)
      else if prefix ''&amp;'' (c # cs) then CHR ''&'' # decode_named_entities (drop (length ''amp;'') cs)
      else c # decode_named_entities cs)"

text \<open>A property of a node and of every node below it.\<close>

fun all_nodes :: "(xml_node \<Rightarrow> bool) \<Rightarrow> xml_node \<Rightarrow> bool" where
  "all_nodes P (Node n a v cs) \<longleftrightarrow> P (Node n a v cs) \<and> (\<forall>c \<in> set cs. all_nodes P c)"

text \<open>The condition of the collapse on the children of a node: one child, named
  \<^verbatim>\<open>#text\<close>.\<close>

definition lone_text :: "xml_node \<Rightarrow> bool" where
  "lone_text n \<longleftrightarrow> length (nodes n) = 1 \<and> name (hd (nodes n)) = ''#text''"

text \<open>A node named \<^verbatim>\<open>#text\<close> has no attributes and no children.\<close>

definition plain_text_node :: "xml_node \<Rightarrow> bool" where
  "plain_text_node n \<longleftrightarrow> name n = ''#text'' \<longrightarrow> attributes n = [] \<and> nodes n = []"

text \<open>Every open node of a builder state satisfies \<open>Q\<close>, and every node that has been
  appended to an open node satisfies \<open>P\<close> with all nodes below it.\<close>

definition frames_ok :: "(xml_node \<Rightarrow> bool) \<Rightarrow> (xml_node \<Rightarrow> bool) \<Rightarrow> builder \<Rightarrow> bool" where
  "frames_ok Q P st \<longleftrightarrow>
     (\<forall>f \<in> set (current_node st # ancestors st). Q f \<and> (\<forall>c \<in> set (nodes f). all_nodes P c))"

text \<open>
  The three loops with a bound on the number of iterations: \<open>None\<close> when the bound is
  reached before the loop has ended, otherwise the result of the loop.
\<close>

fun tag_loop_bounded :: "nat \<Rightarrow> builder \<Rightarrow> (xml_error + builder) option" where
  "tag_loop_bounded 0 st = None"
| "tag_loop_bounded (Suc k) st =
     (if rest st = [] then Some (Inr st)
      else (case tag_step st of
              Inl e \<Rightarrow> Some (Inl e)
            | Inr None \<Rightarrow> Some (Inr st)
            | Inr (Some st') \<Rightarrow> tag_loop_bounded k st'))"

fun comment_loop_bounded :: "nat \<Rightarrow> string \<Rightarrow> (xml_error + string) option" where
  "comment_loop_bounded 0 s = None"
| "comment_loop_bounded (Suc k) s =
     (case comment_step s of
        Inl e \<Rightarrow> Some (Inl e)
      | Inr None \<Rightarrow> Some (Inr s)
      | Inr (Some r) \<Rightarrow> comment_loop_bounded k r)"

fun attributes_loop_bounded ::
  "nat \<Rightarrow> (string \<times> string) list \<Rightarrow> string \<Rightarrow> (string \<times> string) list option option" where
  "attributes_loop_bounded 0 attrs s = None"
| "attributes_loop_bounded (Suc k) attrs s =
     (case attr_step attrs s of
        None \<Rightarrow> Some None
      | Some (Inl result) \<Rightarrow> Some (Some result)
      | Some (Inr (attrs', s')) \<Rightarrow> attributes_loop_bounded k attrs' s')"

section \<open>Lemmas\<close>

lemma replace_all_skip:
  "c \<noteq> a \<Longrightarrow> replace_all (a # p) r (c # cs) = c # replace_all (a # p) r cs"
  by simp

lemma replace_all_skip2:
  "x \<noteq> y \<Longrightarrow> replace_all (a # x # p) r (a # y # cs) = a # replace_all (a # x # p) r (y # cs)"
  by simp

lemma replace_all_hit:
  "replace_all (a # p) r ((a # p) @ cs) = r @ replace_all (a # p) r cs"
  by simp

lemma has_bad_amp_drop: "has_bad_amp (drop n s) \<Longrightarrow> has_bad_amp s"
proof (induction s arbitrary: n)
  case Nil
  then show ?case by simp
next
  case (Cons c cs)
  then show ?case by (cases n) auto
qed

lemma replace_entities_other:
  "c \<noteq> CHR ''&'' \<Longrightarrow> replace_entities (c # cs) = c # replace_entities cs"
  by (simp add: replace_entities_def)

lemma replace_entities_lt: "replace_entities (''&lt;'' @ s) = CHR ''<'' # replace_entities s"
  by (simp add: replace_entities_def)

lemma replace_entities_gt: "replace_entities (''&gt;'' @ s) = CHR ''>'' # replace_entities s"
  by (simp add: replace_entities_def)

lemma replace_entities_apos: "replace_entities (''&apos;'' @ s) = CHR 0x27 # replace_entities s"
  by (simp add: replace_entities_def)

lemma replace_entities_quot: "replace_entities (''&quot;'' @ s) = CHR 0x22 # replace_entities s"
  by (simp add: replace_entities_def)

lemma replace_entities_amp: "replace_entities (''&amp;'' @ s) = CHR ''&'' # replace_entities s"
  by (simp add: replace_entities_def)

lemma replace_entities_numeric:
  "replace_entities (CHR ''&'' # CHR ''#'' # s) = CHR ''&'' # CHR ''#'' # replace_entities s"
  by (simp add: replace_entities_def)

lemma prefix_Cons_split: "prefix (a # p) (c # cs) \<Longrightarrow> c # cs = (a # p) @ drop (length p) cs"
  by (auto simp: prefix_def)

lemma numeric_starts_hash:
  "numeric_dec cs \<or> numeric_hex cs \<Longrightarrow> \<exists>cs'. cs = CHR ''#'' # cs'"
  by (cases cs) (auto simp: numeric_dec_def numeric_hex_def split: list.splits)

lemma replace_entities_decode:
  "\<not> has_bad_amp s \<Longrightarrow> replace_entities s = decode_named_entities s"
proof (induction s rule: decode_named_entities.induct)
  case 1
  show ?case by (simp add: replace_entities_def)
next
  case (2 c cs)
  from "2.prems" have tl_ok: "\<not> has_bad_amp cs" by simp
  then have drop_ok: "\<not> has_bad_amp (drop n cs)" for n
    using has_bad_amp_drop by blast
  show ?case
  proof (cases "prefix ''&lt;'' (c # cs)")
    case True
    from prefix_Cons_split[OF True] have e: "c # cs = ''&lt;'' @ drop (length ''lt;'') cs" .
    have "replace_entities (c # cs) = CHR ''<'' # replace_entities (drop (length ''lt;'') cs)"
      by (subst e) (rule replace_entities_lt)
    also have "replace_entities (drop (length ''lt;'') cs) = decode_named_entities (drop (length ''lt;'') cs)"
      using "2.IH"(1)[OF True drop_ok] .
    finally show ?thesis using True by simp
  next
    case n1: False
    show ?thesis
    proof (cases "prefix ''&gt;'' (c # cs)")
      case True
      from prefix_Cons_split[OF True] have e: "c # cs = ''&gt;'' @ drop (length ''gt;'') cs" .
      have "replace_entities (c # cs) = CHR ''>'' # replace_entities (drop (length ''gt;'') cs)"
        by (subst e) (rule replace_entities_gt)
      also have "replace_entities (drop (length ''gt;'') cs) = decode_named_entities (drop (length ''gt;'') cs)"
        using "2.IH"(2)[OF n1 True drop_ok] .
      finally show ?thesis using n1 True by simp
    next
      case n2: False
      show ?thesis
      proof (cases "prefix ''&apos;'' (c # cs)")
        case True
        from prefix_Cons_split[OF True] have e: "c # cs = ''&apos;'' @ drop (length ''apos;'') cs" .
        have "replace_entities (c # cs) = CHR 0x27 # replace_entities (drop (length ''apos;'') cs)"
          by (subst e) (rule replace_entities_apos)
        also have "replace_entities (drop (length ''apos;'') cs) = decode_named_entities (drop (length ''apos;'') cs)"
          using "2.IH"(3)[OF n1 n2 True drop_ok] .
        finally show ?thesis using n1 n2 True by simp
      next
        case n3: False
        show ?thesis
        proof (cases "prefix ''&quot;'' (c # cs)")
          case True
          from prefix_Cons_split[OF True] have e: "c # cs = ''&quot;'' @ drop (length ''quot;'') cs" .
          have "replace_entities (c # cs) = CHR 0x22 # replace_entities (drop (length ''quot;'') cs)"
            by (subst e) (rule replace_entities_quot)
          also have "replace_entities (drop (length ''quot;'') cs) = decode_named_entities (drop (length ''quot;'') cs)"
            using "2.IH"(4)[OF n1 n2 n3 True drop_ok] .
          finally show ?thesis using n1 n2 n3 True by simp
        next
          case n4: False
          show ?thesis
          proof (cases "prefix ''&amp;'' (c # cs)")
            case True
            from prefix_Cons_split[OF True] have e: "c # cs = ''&amp;'' @ drop (length ''amp;'') cs" .
            have "replace_entities (c # cs) = CHR ''&'' # replace_entities (drop (length ''amp;'') cs)"
              by (subst e) (rule replace_entities_amp)
            also have "replace_entities (drop (length ''amp;'') cs) = decode_named_entities (drop (length ''amp;'') cs)"
              using "2.IH"(5)[OF n1 n2 n3 n4 True drop_ok] .
            finally show ?thesis using n1 n2 n3 n4 True by simp
          next
            case n5: False
            have ih: "replace_entities cs = decode_named_entities cs"
              using "2.IH"(6)[OF n1 n2 n3 n4 n5 tl_ok] .
            have "replace_entities (c # cs) = c # replace_entities cs"
            proof (cases "c = CHR ''&''")
              case False
              then show ?thesis by (rule replace_entities_other)
            next
              case True
              with "2.prems" have "entity_follows cs" by simp
              with n1 n2 n3 n4 n5 True have "numeric_dec cs \<or> numeric_hex cs"
                by (simp add: entity_follows_def)
              then obtain cs' where cs: "cs = CHR ''#'' # cs'"
                using numeric_starts_hash by blast
              show ?thesis
                unfolding True cs
                by (simp only: replace_entities_numeric)
                   (simp add: replace_entities_other)
            qed
            moreover have "decode_named_entities (c # cs) = c # decode_named_entities cs"
              using n1 n2 n3 n4 n5 by (simp only: decode_named_entities.simps if_False)
            ultimately show ?thesis using ih by simp
          qed
        qed
      qed
    qed
  qed
qed

lemma all_nodes_iff: "all_nodes P n \<longleftrightarrow> P n \<and> (\<forall>c \<in> set (nodes n). all_nodes P c)"
  by (cases n) simp

lemma nodes_push_back [simp]: "nodes (push_back c f) = nodes f @ [c]"
  by (simp add: push_back_def)

lemma name_push_back [simp]: "name (push_back c f) = name f"
  by (simp add: push_back_def)

lemma text_value_push_back [simp]: "text_value (push_back c f) = text_value f"
  by (simp add: push_back_def)

lemma attributes_push_back [simp]: "attributes (push_back c f) = attributes f"
  by (simp add: push_back_def)

lemma collapse_cases:
  "collapse f = f \<and> \<not> lone_text f \<or>
   collapse f = Node (name f) (attributes f) (text_value (hd (nodes f))) [] \<and> lone_text f"
  by (simp add: collapse_def lone_text_def)

text \<open>The steps of an ordinary tag on the open nodes, one lemma for all invariants: \<open>Q\<close> is
  kept by appending a child, the nodes made from text and from the tag are fine, and
  closing a fine open node gives a fine node.\<close>

lemma ordinary_tag_frames_ok:
  assumes step: "ordinary_tag st n r = Inr st'"
    and inv: "frames_ok Q P st"
    and push: "\<And>f c. Q f \<Longrightarrow> Q (push_back c f)"
    and text_node: "\<And>t. P (Node ''#text'' [] t [])"
    and element: "\<And>a. \<not> prefix ''/'' n \<Longrightarrow> P (Node n a [] []) \<and> Q (Node n a [] [])"
    and closing: "\<And>f. Q f \<Longrightarrow> \<forall>c \<in> set (nodes f). all_nodes P c \<Longrightarrow> all_nodes P (collapse f)"
  shows "frames_ok Q P st'"
proof -
  define cur where "cur = (if \<not> is_space (pending st)
                           then push_back (Node ''#text'' [] (pending st) []) (current_node st)
                           else current_node st)"
  have cur_Q: "Q cur"
    using inv push by (simp add: cur_def frames_ok_def)
  have cur_P: "\<forall>c \<in> set (nodes cur). all_nodes P c"
    using inv text_node by (auto simp: cur_def frames_ok_def)
  have anc: "\<forall>f \<in> set (ancestors st). Q f \<and> (\<forall>c \<in> set (nodes f). all_nodes P c)"
    using inv by (simp add: frames_ok_def)
  from step have 1: "n \<noteq> []" "validate_tag_name n"
    by (auto simp: ordinary_tag_def split: if_splits)
  from step 1 obtain blob im r' where 2: "match_tag_end r = Some (blob, im, r')"
    by (cases "match_tag_end r") (auto simp: ordinary_tag_def)
  from step 1 2 obtain attrs where 3: "parse_xml_attributes blob = Some attrs"
    by (cases "parse_xml_attributes blob") (auto simp: ordinary_tag_def)
  from step 1 2 3 have body:
    "(if prefix ''/'' n then
        (if im then Inl ClosingTagSelfClosing
         else if n \<noteq> ''/'' @ name cur then Inl MismatchedClosingTag
         else if attrs \<noteq> [] then Inl ClosingTagWithAttributes
         else (case ancestors st of
                 [] \<Rightarrow> Inl AssertionFailure
               | p # ps \<Rightarrow>
                   Inr \<lparr>rest = r', pending = [], current_node = push_back (collapse cur) p,
                        ancestors = ps\<rparr>))
      else if im then
        Inr \<lparr>rest = r', pending = [], current_node = push_back (Node n attrs [] []) cur,
             ancestors = ancestors st\<rparr>
      else
        Inr \<lparr>rest = r', pending = [], current_node = Node n attrs [] [],
             ancestors = cur # ancestors st\<rparr>) = Inr st'"
    unfolding cur_def by (simp add: ordinary_tag_def Let_def split del: if_split)
  show ?thesis
  proof (cases "prefix ''/'' n")
    case True
    with body obtain p ps where ps: "ancestors st = p # ps"
      and st': "st' = \<lparr>rest = r', pending = [], current_node = push_back (collapse cur) p,
                        ancestors = ps\<rparr>"
      by (auto split: if_splits list.splits)
    have "all_nodes P (collapse cur)"
      using closing cur_Q cur_P by blast
    moreover have "Q (push_back (collapse cur) p)"
      using anc ps push by simp
    ultimately show ?thesis
      using st' ps anc by (auto simp: frames_ok_def)
  next
    case False
    have el: "all_nodes P (Node n attrs [] [])" "Q (Node n attrs [] [])"
      using element[OF False] by simp_all
    show ?thesis
    proof (cases im)
      case True
      with body False have st': "st' = \<lparr>rest = r', pending = [],
          current_node = push_back (Node n attrs [] []) cur, ancestors = ancestors st\<rparr>"
        by simp
      have "Q (push_back (Node n attrs [] []) cur)"
        using cur_Q push by simp
      then show ?thesis
        using st' el cur_P anc by (auto simp: frames_ok_def)
    next
      case F: False
      with body False have st': "st' = \<lparr>rest = r', pending = [],
          current_node = Node n attrs [] [], ancestors = cur # ancestors st\<rparr>"
        by simp
      then show ?thesis
        using el cur_Q cur_P anc by (auto simp: frames_ok_def)
    qed
  qed
qed

lemma tag_step_cases:
  assumes "tag_step st = Inr (Some st')"
  obtains (comment) t r u m r' where
      "match_tag_head (rest st) = Some (t, ''!--'', r)"
      "match_comment_end r = Some (m, r')"
      "st' = st\<lparr>rest := r', pending := pending st @ u\<rparr>"
  | (cdata) t r u c r' where
      "match_tag_head (rest st) = Some (t, ''![CDATA['', r)"
      "find_sub '']]>'' r = Some (c, r')"
      "st' = st\<lparr>rest := r', pending := pending st @ u @ c\<rparr>"
  | (ordinary) t n r u where
      "match_tag_head (rest st) = Some (t, n, r)"
      "ordinary_tag (st\<lparr>pending := pending st @ u\<rparr>) n r = Inr st'"
proof -
  from assms obtain t n r where h: "match_tag_head (rest st) = Some (t, n, r)"
    by (auto simp: tag_step_def split: option.splits)
  from assms h obtain u where u: "unescape_xml_inner_text t = Some u"
    by (cases "unescape_xml_inner_text t") (auto simp: tag_step_def)
  show thesis
  proof (cases "n = ''!--''")
    case True
    with assms h u obtain m r' where "match_comment_end r = Some (m, r')"
      "st' = st\<lparr>rest := r', pending := pending st @ u\<rparr>"
      by (auto simp: tag_step_def split: option.splits if_splits)
    with h True show thesis using comment by blast
  next
    case False
    show thesis
    proof (cases "n = ''![CDATA[''")
      case True
      with assms h u False obtain c r' where "find_sub '']]>'' r = Some (c, r')"
        "st' = st\<lparr>rest := r', pending := pending st @ u @ c\<rparr>"
        by (auto simp: tag_step_def match_cdata_end_def split: option.splits if_splits)
      with h True show thesis using cdata by blast
    next
      case F2: False
      from assms h u False F2 have "ordinary_tag (st\<lparr>pending := pending st @ u\<rparr>) n r = Inr st'"
        by (cases "ordinary_tag (st\<lparr>pending := pending st @ u\<rparr>) n r") (auto simp: tag_step_def)
      with h show thesis using ordinary by blast
    qed
  qed
qed

lemma tag_step_frames_ok:
  assumes step: "tag_step st = Inr (Some st')"
    and inv: "frames_ok Q P st"
    and push: "\<And>f c. Q f \<Longrightarrow> Q (push_back c f)"
    and text_node: "\<And>t. P (Node ''#text'' [] t [])"
    and element: "\<And>t n r a. match_tag_head (rest st) = Some (t, n, r) \<Longrightarrow> \<not> prefix ''/'' n \<Longrightarrow>
                   P (Node n a [] []) \<and> Q (Node n a [] [])"
    and closing: "\<And>f. Q f \<Longrightarrow> \<forall>c \<in> set (nodes f). all_nodes P c \<Longrightarrow> all_nodes P (collapse f)"
  shows "frames_ok Q P st'"
  using step
proof (cases rule: tag_step_cases)
  case (comment t r u m r')
  with inv show ?thesis by (simp add: frames_ok_def)
next
  case (cdata t r u c r')
  with inv show ?thesis by (simp add: frames_ok_def)
next
  case (ordinary t n r u)
  show ?thesis
  proof (rule ordinary_tag_frames_ok [OF ordinary(2)])
    show "frames_ok Q P (st\<lparr>pending := pending st @ u\<rparr>)"
      using inv by (simp add: frames_ok_def)
    show "\<And>f c. Q f \<Longrightarrow> Q (push_back c f)" by (rule push)
    show "\<And>t. P (Node ''#text'' [] t [])" by (rule text_node)
    show "\<And>f. Q f \<Longrightarrow> \<forall>c \<in> set (nodes f). all_nodes P c \<Longrightarrow> all_nodes P (collapse f)"
      by (rule closing)
    show "\<And>a. \<not> prefix ''/'' n \<Longrightarrow> P (Node n a [] []) \<and> Q (Node n a [] [])"
      using element[OF ordinary(1)] by blast
  qed
qed

lemma tag_loop_invariant:
  assumes "tag_loop st = Inr st'" and "I st"
    and step: "\<And>s s'. I s \<Longrightarrow> tag_step s = Inr (Some s') \<Longrightarrow> I s'"
  shows "I st'"
  using assms(1,2)
proof (induction st rule: tag_loop.induct)
  case (1 st)
  show ?case
  proof (cases "rest st = []")
    case True
    with "1.prems" show ?thesis by (simp add: tag_loop.simps)
  next
    case False
    show ?thesis
    proof (cases "tag_step st")
      case (Inl e)
      with False "1.prems" show ?thesis by (simp add: tag_loop.simps)
    next
      case (Inr x)
      show ?thesis
      proof (cases x)
        case None
        with Inr False "1.prems" show ?thesis by (simp add: tag_loop.simps)
      next
        case (Some s')
        with Inr False "1.prems"(1) have "tag_loop s' = Inr st'"
          by (simp add: tag_loop.simps[of st])
        moreover have "I s'" using step "1.prems"(2) Inr Some by blast
        ultimately show ?thesis using "1.IH"[OF False Inr Some] by blast
      qed
    qed
  qed
qed

lemma build_tree_tag_loop:
  "build_tree r = Inr st \<Longrightarrow>
   tag_loop \<lparr>rest = r, pending = [], current_node = Node [] [] [] [], ancestors = []\<rparr> = Inr st"
  by (auto simp: build_tree_def split: sum.splits if_splits)

lemma parse_xml_build_tree:
  assumes "parse_xml text = Inr doc"
  obtains ver blob r st where "match_declaration text = Some (ver, blob, r)"
    "build_tree r = Inr st" "root_node doc = first_child (top_node st)"
  using assms
  by (auto simp: parse_xml_def split: option.splits if_splits sum.splits)

lemma first_child_in_nodes: "first_child t = Some n \<Longrightarrow> n \<in> set (nodes t)"
  by (auto simp: first_child_def split: list.splits)

lemma attach_all_nodes:
  assumes "all_nodes P n"
    and "\<forall>f \<in> set ps. Q f \<and> (\<forall>c \<in> set (nodes f). all_nodes P c)"
    and "\<And>f c. Q f \<Longrightarrow> P (push_back c f)"
  shows "all_nodes P (attach n ps)"
  using assms(1,2)
proof (induction ps arbitrary: n)
  case Nil
  then show ?case by simp
next
  case (Cons p ps)
  have "all_nodes P (push_back n p)"
    using Cons.prems assms(3)[of p n] by (simp add: all_nodes_iff[of P "push_back n p"])
  then show ?case using Cons by simp
qed

lemma top_node_all_nodes:
  assumes "frames_ok Q P st"
    and "\<And>f. Q f \<Longrightarrow> P f"
    and "\<And>f c. Q f \<Longrightarrow> P (push_back c f)"
  shows "all_nodes P (top_node st)"
proof -
  have "all_nodes P (current_node st)"
    using assms(1,2) by (simp add: frames_ok_def all_nodes_iff[of P "current_node st"])
  then show ?thesis
    unfolding top_node_def using assms(1,3) by (intro attach_all_nodes[where Q = Q]) (auto simp: frames_ok_def)
qed

lemma frames_ok_initial:
  "frames_ok (\<lambda>f. name f \<noteq> ''#text'') plain_text_node
     \<lparr>rest = r, pending = [], current_node = Node [] [] [] [], ancestors = []\<rparr>"
  by (simp add: frames_ok_def)

lemma suffix_no_sublist: "suffix r s \<Longrightarrow> \<not> sublist p s \<Longrightarrow> \<not> sublist p r"
  by (auto simp: suffix_def sublist_def) (metis append.assoc)

lemma match_tag_head_suffix: "match_tag_head s = Some (t, n, r) \<Longrightarrow> suffix r s"
  by (drule match_tag_head_split) (auto simp: suffix_def)

lemma match_tag_head_name_sublist:
  "match_tag_head s = Some (t, n, r) \<Longrightarrow> sublist (CHR ''<'' # n) s"
proof -
  assume "match_tag_head s = Some (t, n, r)"
  then have "s = t @ (CHR ''<'' # n) @ r" by (drule_tac match_tag_head_split) simp
  then show ?thesis unfolding sublist_def by blast
qed

lemma match_comment_end_suffix: "match_comment_end s = Some (m, r) \<Longrightarrow> suffix r s"
  by (drule match_comment_end_split) (auto simp: suffix_def)

lemma find_sub_suffix: "find_sub p s = Some (a, b) \<Longrightarrow> suffix b s"
  by (drule find_sub_split) (auto simp: suffix_def)

lemma match_tag_end_suffix: "match_tag_end s = Some (a, b, r) \<Longrightarrow> suffix r s"
  by (drule match_tag_end_split) (auto simp: suffix_def split: if_splits)

lemma version_tail_suffix: "version_tail s = Some (v, r) \<Longrightarrow> suffix r s"
proof (induction s arbitrary: v)
  case Nil
  then show ?case by simp
next
  case (Cons c cs)
  show ?case
  proof (cases "c = CHR 0x22")
    case True
    with Cons.prems show ?thesis by (simp add: suffix_Cons)
  next
    case False
    with Cons.prems obtain v' where "version_tail cs = Some (v', r)"
      by (auto split: if_splits)
    then show ?thesis using Cons.IH by (simp add: suffix_Cons)
  qed
qed

lemma match_declaration_suffix:
  assumes "match_declaration s = Some (v, b, r)"
  shows "suffix r s"
proof -
  let ?d = "drop (length (''version='' @ [CHR 0x22])) (dropWhile is_space_char (drop (length ''<?xml'') s))"
  from assms obtain c cs v' r1 where d: "?d = c # cs" and vt: "version_tail cs = Some (v', r1)"
    and fs: "find_sub ''?>'' r1 = Some (b, r)"
    by (auto simp: match_declaration_def split: if_splits list.splits option.splits)
  have "suffix ?d s"
    by (meson suffix_drop suffix_dropWhile suffix_order.trans)
  then have "suffix cs s" using d by (metis suffix_ConsD)
  moreover have "suffix r1 cs" using vt by (rule version_tail_suffix)
  moreover have "suffix r r1" using fs by (rule find_sub_suffix)
  ultimately show ?thesis by (meson suffix_order.trans)
qed

lemma tag_step_suffix:
  assumes "tag_step st = Inr (Some st')"
  shows "suffix (rest st') (rest st)"
  using assms
proof (cases rule: tag_step_cases)
  case (comment t r u m r')
  then show ?thesis
    using match_tag_head_suffix match_comment_end_suffix by (fastforce intro: suffix_order.trans)
next
  case (cdata t r u c r')
  then show ?thesis
    using match_tag_head_suffix find_sub_suffix by (fastforce intro: suffix_order.trans)
next
  case (ordinary t n r u)
  from ordinary_tag_rest [OF ordinary(2)] obtain blob im where
    "match_tag_end r = Some (blob, im, rest st')" by blast
  then have "suffix (rest st') r" by (rule match_tag_end_suffix)
  moreover have "suffix r (rest st)" using ordinary(1) by (rule match_tag_head_suffix)
  ultimately show ?thesis by (rule suffix_order.trans)
qed

lemma tag_step_plain_text:
  assumes step: "tag_step st = Inr (Some st')"
    and inv: "frames_ok (\<lambda>f. name f \<noteq> ''#text'') plain_text_node st"
    and no: "\<not> sublist ''<#text'' (rest st)"
  shows "frames_ok (\<lambda>f. name f \<noteq> ''#text'') plain_text_node st'"
proof (rule tag_step_frames_ok [OF step inv])
  fix f assume "name f \<noteq> ''#text''" "\<forall>c \<in> set (nodes f). all_nodes plain_text_node c"
  then show "all_nodes plain_text_node (collapse f)"
    using collapse_cases[of f]
    by (auto simp: all_nodes_iff[of plain_text_node f] plain_text_node_def)
next
  fix t n r a assume "match_tag_head (rest st) = Some (t, n, r)"
  then have "sublist (CHR ''<'' # n) (rest st)" by (rule match_tag_head_name_sublist)
  with no have "n \<noteq> ''#text''" by auto
  then show "plain_text_node (Node n a [] []) \<and> name (Node n a [] []) \<noteq> ''#text''"
    by (simp add: plain_text_node_def)
qed (simp_all add: plain_text_node_def)

lemma tag_loop_plain_text:
  assumes "build_tree r = Inr st" and "\<not> sublist ''<#text'' r"
  shows "frames_ok (\<lambda>f. name f \<noteq> ''#text'') plain_text_node st"
proof -
  let ?I = "\<lambda>s. frames_ok (\<lambda>f. name f \<noteq> ''#text'') plain_text_node s \<and>
                 \<not> sublist ''<#text'' (rest s)"
  have "?I st"
  proof (rule tag_loop_invariant [where I = ?I, OF build_tree_tag_loop [OF assms(1)]])
    show "?I \<lparr>rest = r, pending = [], current_node = Node [] [] [] [], ancestors = []\<rparr>"
      using assms(2) frames_ok_initial by simp
  next
    fix s s' assume "?I s" and "tag_step s = Inr (Some s')"
    then show "?I s'"
      using tag_step_plain_text tag_step_suffix suffix_no_sublist by blast
  qed
  then show ?thesis ..
qed

lemma tag_loop_bounded_enough:
  "length (rest st) < k \<Longrightarrow> tag_loop_bounded k st = Some (tag_loop st)"
proof (induction k arbitrary: st)
  case 0
  then show ?case by simp
next
  case (Suc k)
  show ?case
  proof (cases "tag_step st")
    case (Inl e)
    then show ?thesis by (simp add: tag_loop.simps [of st])
  next
    case (Inr x)
    show ?thesis
    proof (cases x)
      case None
      with Inr show ?thesis by (simp add: tag_loop.simps [of st])
    next
      case (Some st')
      with Inr have "length (rest st') < length (rest st)"
        using tag_step_shorter by blast
      with Suc.prems have "length (rest st') < k" by simp
      then have "tag_loop_bounded k st' = Some (tag_loop st')" by (rule Suc.IH)
      with Inr Some show ?thesis by (simp add: tag_loop.simps [of st])
    qed
  qed
qed

lemma comment_loop_bounded_enough:
  "length s < k \<Longrightarrow> comment_loop_bounded k s = Some (comment_loop s)"
proof (induction k arbitrary: s)
  case 0
  then show ?case by simp
next
  case (Suc k)
  show ?case
  proof (cases "comment_step s")
    case (Inl e)
    then show ?thesis by (simp add: comment_loop.simps [of s])
  next
    case (Inr x)
    show ?thesis
    proof (cases x)
      case None
      with Inr show ?thesis by (simp add: comment_loop.simps [of s])
    next
      case (Some r)
      with Inr have "length r < length s"
        using comment_step_shorter by blast
      with Suc.prems have "length r < k" by simp
      then have "comment_loop_bounded k r = Some (comment_loop r)" by (rule Suc.IH)
      with Inr Some show ?thesis by (simp add: comment_loop.simps [of s])
    qed
  qed
qed

lemma attributes_loop_bounded_enough:
  "length s < k \<Longrightarrow> attributes_loop_bounded k attrs s = Some (attributes_loop attrs s)"
proof (induction k arbitrary: attrs s)
  case 0
  then show ?case by simp
next
  case (Suc k)
  show ?case
  proof (cases "attr_step attrs s")
    case None
    then show ?thesis by (simp add: attributes_loop.simps [of attrs s])
  next
    case (Some x)
    show ?thesis
    proof (cases x)
      case (Inl result)
      with Some show ?thesis by (simp add: attributes_loop.simps [of attrs s])
    next
      case (Inr p)
      obtain attrs' s' where p: "p = (attrs', s')" by (cases p)
      with Some Inr have "length s' < length s"
        using attr_step_shorter by blast
      with Suc.prems have "length s' < k" by simp
      then have "attributes_loop_bounded k attrs' s' = Some (attributes_loop attrs' s')"
        by (rule Suc.IH)
      with Some Inr p show ?thesis by (simp add: attributes_loop.simps [of attrs s])
    qed
  qed
qed

section \<open>The claims\<close>

text \<open>
  C1. The input \<^verbatim>\<open><?xml version="1.0"?><root/>\<close> is parsed into a document, but the name of
  its root is \<^verbatim>\<open>root/\<close>: the last alternative of the tag head pattern takes the slash into
  the name, the pattern for the end of the tag then sees \<^verbatim>\<open>>\<close> alone, and the element is
  opened and never closed. With white space before the slash the root is named \<^verbatim>\<open>root\<close>.
\<close>

theorem parse_xml_root_slash:
  \<open>parse_xml ''<?xml version="1.0"?><root/>'' =
     Inr \<lparr>version = ''1.0'', doc_attributes = [], root_node = Some (Node ''root/'' [] [] [])\<rparr> \<and>
   parse_xml ''<?xml version="1.0"?><root />'' =
     Inr \<lparr>version = ''1.0'', doc_attributes = [], root_node = Some (Node ''root'' [] [] [])\<rparr>\<close>
  by code_simp

text \<open>
  C2. A comment whose body has a single dash is not skipped: the pattern for the end of a
  comment stops at the first dash and needs a second one behind it, so
  \<^verbatim>\<open><!-- a - b -->\<close> is reported as a comment without an end. The same comment without
  the dash is skipped.
\<close>

theorem parse_xml_comment_single_dash:
  \<open>parse_xml ''<?xml version="1.0"?><!-- a - b --><r />'' = Inl MissingClosingTag \<and>
   parse_xml ''<?xml version="1.0"?><!-- a b --><r />'' =
     Inr \<lparr>version = ''1.0'', doc_attributes = [], root_node = Some (Node ''r'' [] [] [])\<rparr>\<close>
  by code_simp

text \<open>
  C3. An element that is still open at the end of the input is not an error:
  \<^verbatim>\<open><?xml version="1.0"?><a>\<close> is parsed into a document with the root \<^verbatim>\<open>a\<close>. A closing tag
  with another name, in contrast, is rejected.
\<close>

theorem parse_xml_unclosed_element:
  \<open>parse_xml ''<?xml version="1.0"?><a>'' =
     Inr \<lparr>version = ''1.0'', doc_attributes = [], root_node = Some (Node ''a'' [] [] [])\<rparr> \<and>
   parse_xml ''<?xml version="1.0"?><a></b>'' = Inl MismatchedClosingTag\<close>
  by code_simp

text \<open>
  C4. Text after the root element is rejected when it ends the input, and accepted when a
  comment follows it: the tag loop takes the text into the pending text on its way to the
  comment, and the pending text is not examined after the loop.
\<close>

theorem parse_xml_text_before_trailing_comment:
  \<open>parse_xml ''<?xml version="1.0"?><a />x<!--c-->'' =
     Inr \<lparr>version = ''1.0'', doc_attributes = [], root_node = Some (Node ''a'' [] [] [])\<rparr> \<and>
   parse_xml ''<?xml version="1.0"?><a />x'' = Inl IllegalFormatTrailingContent\<close>
  by code_simp

text \<open>
  C5. The closing tag \<^verbatim>\<open></>\<close> with no element open passes the comparison of names
  (\<^verbatim>\<open>"/"\<close> against \<^verbatim>\<open>"/" + ""\<close>), the current node becomes the null parent of the top node
  and the assertion behind it fails. A closing tag with a name is rejected as mismatched.
\<close>

theorem parse_xml_empty_closing_tag:
  \<open>parse_xml ''<?xml version="1.0"?></>'' = Inl AssertionFailure \<and>
   parse_xml ''<?xml version="1.0"?></a>'' = Inl MismatchedClosingTag\<close>
  by code_simp

text \<open>
  C6. A text that passes the two validation steps is unescaped by the five replacements in
  the order lt, gt, apos, quot, amp, and the result is the text in which exactly the five
  named entities are rewritten: every other character, so every numeric reference, is in
  the output as it is in the input. For the texts of Scenario C, \<^verbatim>\<open>&\<close> alone is rejected and
  the five entities give \<^verbatim>\<open><>'"&\<close> as the inner text of the root.
\<close>

theorem unescape_xml_entity_rewrites:
  \<open>(unescape_xml_entity illegal s = Some t \<longrightarrow>
      t = replace_all ''&amp;'' ''&''
            (replace_all ''&quot;'' [CHR 0x22]
              (replace_all ''&apos;'' [CHR 0x27]
                (replace_all ''&gt;'' ''>''
                  (replace_all ''&lt;'' ''<'' s)))) \<and>
      t = decode_named_entities s) \<and>
   parse_xml ''<?xml version="1.0"?><value>&</value>'' = Inl NoEscapedCharacter \<and>
   map_sum id (map_option inner_text \<circ> root_node)
     (parse_xml ''<?xml version="1.0"?><value>&lt;&gt;&apos;&quot;&amp;</value>'') =
       Inr (Some ''<>'"&'')\<close>
proof -
  have "unescape_xml_entity illegal s = Some t \<longrightarrow>
      t = replace_entities s \<and> t = decode_named_entities s"
    by (auto simp: unescape_xml_entity_def replace_entities_decode split: if_splits)
  moreover have \<open>parse_xml ''<?xml version="1.0"?><value>&</value>'' = Inl NoEscapedCharacter\<close>
    by code_simp
  moreover have \<open>map_sum id (map_option inner_text \<circ> root_node)
     (parse_xml ''<?xml version="1.0"?><value>&lt;&gt;&apos;&quot;&amp;</value>'') =
       Inr (Some ''<>'"&'')\<close>
    by code_simp
  ultimately show ?thesis unfolding replace_entities_def by blast
qed

theorem unescape_xml_entity_rewrites_witness:
  \<open>unescape_xml_inner_text ''t&#160;&amp;lt;&lt;&#x2663;'' = Some ''t&#160;&lt;<&#x2663;'' \<and>
   decode_named_entities ''t&#160;&amp;lt;&lt;&#x2663;'' = ''t&#160;&lt;<&#x2663;''\<close>
proof -
  have h: \<open>unescape_xml_entity ''<'' ''t&#160;&amp;lt;&lt;&#x2663;'' = Some ''t&#160;&lt;<&#x2663;''\<close>
    by code_simp
  note r = unescape_xml_entity_rewrites [of \<open>''<''\<close> \<open>''t&#160;&amp;lt;&lt;&#x2663;''\<close>
      \<open>''t&#160;&lt;<&#x2663;''\<close>]
  have d: \<open>''t&#160;&lt;<&#x2663;'' = decode_named_entities ''t&#160;&amp;lt;&lt;&#x2663;''\<close>
    by (rule conjunct2 [OF mp [OF conjunct1 [OF r] h]])
  show ?thesis
    unfolding unescape_xml_inner_text_def using h d [symmetric] by (rule conjI)
qed

text \<open>
  C7. The collapse is a step of the closing tag: an element whose content is one text run
  has the text as its value and no children once its closing tag is matched (Scenario D),
  and an element with several children keeps them with the empty value. An element that is
  still open at the end of the input is returned as it is, so in the tree of
  \<^verbatim>\<open><?xml version="1.0"?><a><#text>x</#text>\<close> the element \<^verbatim>\<open>a\<close> has exactly one child, named
  \<^verbatim>\<open>#text\<close>. With the closing tag of \<^verbatim>\<open>a\<close> the same content is collapsed.
\<close>

theorem parse_xml_lone_text_child:
  \<open>parse_xml ''<?xml version="1.0"?><a><#text>x</#text>'' =
     Inr \<lparr>version = ''1.0'', doc_attributes = [],
          root_node = Some (Node ''a'' [] [] [Node ''#text'' [] ''x'' []])\<rparr> \<and>
   lone_text (Node ''a'' [] [] [Node ''#text'' [] ''x'' []]) \<and>
   parse_xml ''<?xml version="1.0"?><a><#text>x</#text></a>'' =
     Inr \<lparr>version = ''1.0'', doc_attributes = [], root_node = Some (Node ''a'' [] ''x'' [])\<rparr> \<and>
   parse_xml ''<?xml version="1.0"?><a><b>x</b></a>'' =
     Inr \<lparr>version = ''1.0'', doc_attributes = [],
          root_node = Some (Node ''a'' [] [] [Node ''b'' [] ''x'' []])\<rparr> \<and>
   parse_xml ''<?xml version="1.0"?><a>x<b />y</a>'' =
     Inr \<lparr>version = ''1.0'', doc_attributes = [],
          root_node = Some (Node ''a'' [] []
            [Node ''#text'' [] ''x'' [], Node ''b'' [] [] [], Node ''#text'' [] ''y'' []])\<rparr>\<close>
  by code_simp

text \<open>
  C8, as the code has it. \<^verbatim>\<open>validate_tag_name\<close> rejects the five characters
  \<^verbatim>\<open><>'"&\<close> and nothing else, so the name \<^verbatim>\<open>#text\<close> is not reserved. When the input does not
  have the characters \<^verbatim>\<open><#text\<close>, every node named \<^verbatim>\<open>#text\<close> of a returned tree comes from
  the text between tags and has no attributes and no children.
\<close>

theorem text_nodes_plain_without_text_tag:
  assumes "\<not> sublist ''<#text'' text"
    and "parse_xml text = Inr doc"
    and "root_node doc = Some root"
  shows "all_nodes plain_text_node root"
proof -
  from assms(2) obtain ver blob r st where d: "match_declaration text = Some (ver, blob, r)"
    and b: "build_tree r = Inr st" and "root_node doc = first_child (top_node st)"
    by (rule parse_xml_build_tree)
  with assms(3) have fc: "first_child (top_node st) = Some root" by simp
  have "\<not> sublist ''<#text'' r"
    using match_declaration_suffix [OF d] assms(1) by (rule suffix_no_sublist)
  then have "frames_ok (\<lambda>f. name f \<noteq> ''#text'') plain_text_node st"
    using b tag_loop_plain_text by blast
  then have "all_nodes plain_text_node (top_node st)"
    by (rule top_node_all_nodes) (simp_all add: plain_text_node_def)
  then show ?thesis
    using first_child_in_nodes [OF fc]
    by (simp add: all_nodes_iff [of plain_text_node "top_node st"])
qed

theorem text_nodes_plain_without_text_tag_witness:
  \<open>\<not> sublist ''<#text'' ''<?xml version="1.0"?><a k="v">x<b />y</a>'' \<and>
   parse_xml ''<?xml version="1.0"?><a k="v">x<b />y</a>'' =
     Inr \<lparr>version = ''1.0'', doc_attributes = [],
          root_node = Some (Node ''a'' [(''k'', ''v'')] []
            [Node ''#text'' [] ''x'' [], Node ''b'' [] [] [], Node ''#text'' [] ''y'' []])\<rparr> \<and>
   all_nodes plain_text_node (Node ''a'' [(''k'', ''v'')] []
            [Node ''#text'' [] ''x'' [], Node ''b'' [] [] [], Node ''#text'' [] ''y'' []])\<close>
proof -
  let ?root = "Node ''a'' [(''k'', ''v'')] []
            [Node ''#text'' [] ''x'' [], Node ''b'' [] [] [], Node ''#text'' [] ''y'' []]"
  let ?doc = "\<lparr>version = ''1.0'', doc_attributes = [], root_node = Some ?root\<rparr>"
  have n: \<open>\<not> sublist ''<#text'' ''<?xml version="1.0"?><a k="v">x<b />y</a>''\<close>
    by code_simp
  have p: \<open>parse_xml ''<?xml version="1.0"?><a k="v">x<b />y</a>'' = Inr ?doc\<close>
    by code_simp
  have r: "root_node ?doc = Some ?root"
    by simp
  from text_nodes_plain_without_text_tag [OF n p r] n p show ?thesis
    by blast
qed

text \<open>C8 as stated fails: a tag named \<^verbatim>\<open>#text\<close> gives a node of that name with an attribute
  and a child.\<close>

theorem text_name_reserved_counterexample:
  \<open>parse_xml ''<?xml version="1.0"?><#text a="1"><b /></#text>'' =
     Inr \<lparr>version = ''1.0'', doc_attributes = [],
          root_node = Some (Node ''#text'' [(''a'', ''1'')] [] [Node ''b'' [] [] []])\<rparr> \<and>
   \<not> plain_text_node (Node ''#text'' [(''a'', ''1'')] [] [Node ''b'' [] [] []])\<close>
  by code_simp

text \<open>
  C9. Every iteration of the tag loop, of the comment loop behind it and of the loop of the
  attribute parser that goes on to a next iteration leaves a strictly shorter text to scan
  (every other iteration throws or leaves the loop). So each loop has ended after at most
  one iteration more than the text it starts on has characters, and \<^verbatim>\<open>parse_xml\<close> has a
  result, an error or a document, on every input.
\<close>

theorem parse_xml_loops_advance:
  "(tag_step st = Inr (Some st') \<longrightarrow> length (rest st') < length (rest st)) \<and>
   (comment_step r = Inr (Some r') \<longrightarrow> length r' < length r) \<and>
   (attr_step attrs s = Some (Inr (attrs', s')) \<longrightarrow> length s' < length s) \<and>
   tag_loop_bounded (Suc (length (rest st))) st = Some (tag_loop st) \<and>
   comment_loop_bounded (Suc (length r)) r = Some (comment_loop r) \<and>
   attributes_loop_bounded (Suc (length s)) attrs s = Some (attributes_loop attrs s) \<and>
   ((\<exists>e. parse_xml text = Inl e) \<or> (\<exists>doc. parse_xml text = Inr doc))"
proof -
  have "(\<exists>e. parse_xml text = Inl e) \<or> (\<exists>doc. parse_xml text = Inr doc)"
    by (cases "parse_xml text") auto
  moreover have "tag_loop_bounded (Suc (length (rest st))) st = Some (tag_loop st)"
    by (rule tag_loop_bounded_enough) simp
  moreover have "comment_loop_bounded (Suc (length r)) r = Some (comment_loop r)"
    by (rule comment_loop_bounded_enough) simp
  moreover have "attributes_loop_bounded (Suc (length s)) attrs s = Some (attributes_loop attrs s)"
    by (rule attributes_loop_bounded_enough) simp
  ultimately show ?thesis
    using tag_step_shorter comment_step_shorter attr_step_shorter by blast
qed

theorem parse_xml_loops_advance_witness:
  \<open>tag_step \<lparr>rest = ''x<a b="1">y'', pending = [], current_node = Node [] [] [] [], ancestors = []\<rparr> =
     Inr (Some \<lparr>rest = ''y'', pending = [], current_node = Node ''a'' [(''b'', ''1'')] [] [],
                ancestors = [Node [] [] [] [Node ''#text'' [] ''x'' []]]\<rparr>) \<and>
   length ''y'' < length ''x<a b="1">y'' \<and>
   comment_step '' <!-- c -->z'' = Inr (Some ''z'') \<and>
   length ''z'' < length '' <!-- c -->z'' \<and>
   attr_step [] '' a="1" b='2' '' = Some (Inr ([(''a'', ''1'')], '' b='2' '')) \<and>
   length '' b='2' '' < length '' a="1" b='2' ''\<close>
proof -
  let ?st = \<open>\<lparr>rest = ''x<a b="1">y'', pending = [], current_node = Node [] [] [] [],
              ancestors = []\<rparr>\<close>
  let ?st' = \<open>\<lparr>rest = ''y'', pending = [], current_node = Node ''a'' [(''b'', ''1'')] [] [],
                ancestors = [Node [] [] [] [Node ''#text'' [] ''x'' []]]\<rparr>\<close>
  have t: "tag_step ?st = Inr (Some ?st')"
    by code_simp
  have c: \<open>comment_step '' <!-- c -->z'' = Inr (Some ''z'')\<close>
    by code_simp
  have a: \<open>attr_step [] '' a="1" b='2' '' = Some (Inr ([(''a'', ''1'')], '' b='2' ''))\<close>
    by code_simp
  from parse_xml_loops_advance [of ?st ?st' \<open>'' <!-- c -->z''\<close> \<open>''z''\<close> "[]" \<open>'' a="1" b='2' ''\<close>
      \<open>[(''a'', ''1'')]\<close> \<open>'' b='2' ''\<close>] t c a
  have \<open>length (rest ?st') < length (rest ?st) \<and> length ''z'' < length '' <!-- c -->z'' \<and>
        length '' b='2' '' < length '' a="1" b='2' ''\<close>
    by blast
  with t c a show ?thesis by simp
qed

text \<open>
  C10. When the tree builder ends without an error and the top node has more than one
  child, the parse returns a document whose root is the first of them; the other children
  are in no part of the document.
\<close>

theorem parse_xml_first_child_only:
  assumes "match_declaration text = Some (''1.0'', blob, r)"
    and "parse_xml_attributes blob = Some attrs"
    and "build_tree r = Inr st"
    and "1 < length (nodes (top_node st))"
  shows "parse_xml text =
    Inr \<lparr>version = ''1.0'', doc_attributes = attrs,
         root_node = Some (hd (nodes (top_node st)))\<rparr>"
  using assms by (cases "nodes (top_node st)") (simp_all add: parse_xml_def first_child_def)

theorem parse_xml_first_child_only_witness:
  \<open>build_tree ''<a /><b />'' =
     Inr \<lparr>rest = [], pending = [],
          current_node = Node [] [] [] [Node ''a'' [] [] [], Node ''b'' [] [] []],
          ancestors = []\<rparr> \<and>
   parse_xml ''<?xml version="1.0"?><a /><b />'' =
     Inr \<lparr>version = ''1.0'', doc_attributes = [], root_node = Some (Node ''a'' [] [] [])\<rparr> \<and>
   build_tree ''x<a />'' =
     Inr \<lparr>rest = [], pending = [],
          current_node = Node [] [] [] [Node ''#text'' [] ''x'' [], Node ''a'' [] [] []],
          ancestors = []\<rparr> \<and>
   parse_xml ''<?xml version="1.0"?>x<a />'' =
     Inr \<lparr>version = ''1.0'', doc_attributes = [],
          root_node = Some (Node ''#text'' [] ''x'' [])\<rparr>\<close>
proof -
  let ?st1 = "\<lparr>rest = [], pending = [],
          current_node = Node [] [] [] [Node ''a'' [] [] [], Node ''b'' [] [] []],
          ancestors = []\<rparr>"
  let ?st2 = "\<lparr>rest = [], pending = [],
          current_node = Node [] [] [] [Node ''#text'' [] ''x'' [], Node ''a'' [] [] []],
          ancestors = []\<rparr>"
  have d1: \<open>match_declaration ''<?xml version="1.0"?><a /><b />'' = Some (''1.0'', [], ''<a /><b />'')\<close>
    by code_simp
  have d2: \<open>match_declaration ''<?xml version="1.0"?>x<a />'' = Some (''1.0'', [], ''x<a />'')\<close>
    by code_simp
  have a: "parse_xml_attributes [] = Some []"
    by code_simp
  have b1: "build_tree ''<a /><b />'' = Inr ?st1"
    by code_simp
  have b2: "build_tree ''x<a />'' = Inr ?st2"
    by code_simp
  have n1: "1 < length (nodes (top_node ?st1))"
    by (simp add: top_node_def)
  have n2: "1 < length (nodes (top_node ?st2))"
    by (simp add: top_node_def)
  show ?thesis
    using parse_xml_first_child_only [OF d1 a b1 n1] parse_xml_first_child_only [OF d2 a b2 n2] b1 b2
    by (simp add: top_node_def)
qed

end
